theory Spec2Isabelle
  imports Complex_Main
begin

section \<open>The search controller of play\_chess.py\<close>

text \<open>
  The theory embeds the class \<open>MCTS_Model\<close> of \<open>play_chess.py\<close>: its methods
  \<open>print_pvs\<close> and \<open>find_move\<close>. The search engine (module \<open>mcts\<close>), the rules
  engine (module \<open>chess\<close>) and the formatting of floating-point numbers are not part of
  the file; they are parameters of the model, collected in the record \<open>engine\<close>.

  Python exceptions are values of the type \<open>error\<close>; a method that can raise returns
  \<open>error + 'a\<close>. The recursion of \<open>find_move\<close> on itself has no bound, so
  \<open>find_move\<close> returns an \<open>option\<close> whose \<open>None\<close> is a call that never returns
  (the recursion limit of the interpreter is not modelled). The calls into the engine are
  total functions: an exception raised inside \<open>rollout\<close>, \<open>san\<close> or the constructor of a
  node is outside the model. A node object counts as true in \<open>if self.node\<close>.
\<close>

subsection \<open>Data\<close>

datatype error = ValueError | ZeroDivisionError | AttributeError | IndexError

text \<open>
  A node of the search tree, with the attributes the controller reads: \<open>board\<close>,
  \<open>parent_board\<close>, \<open>move\<close> (None at a root), the visit count \<open>N\<close>, the value \<open>Q\<close>,
  the prior \<open>P\<close> and the list \<open>children\<close>. \<open>Q\<close> and \<open>P\<close> are Python floats; the model
  keeps the exact rational value of each.
\<close>

datatype ('b, 'm) node =
  Node (board: 'b) (parent_board: "'b option") (move: "'m option")
       (N: int) (Q: rat) (P: rat) (children: "('b, 'm) node list")

text \<open>
  What the controller calls and does not define: the constructor
  \<open>mcts.Node(board, None, 0, model)\<close>, the method \<open>rollout\<close> (which updates the subtree
  of its node in place: the model returns the updated subtree), \<open>Board.san\<close>, and the
  format specifications \<open>.1%\<close> and \<open>.2\<close>.
\<close>

record ('b, 'm) engine =
  new_node :: "'b \<Rightarrow> ('b, 'm) node"
  rollout :: "('b, 'm) node \<Rightarrow> ('b, 'm) node"
  san :: "'b \<Rightarrow> 'm option \<Rightarrow> string"
  fmt_percent :: "rat \<Rightarrow> string"
  fmt_general :: "rat \<Rightarrow> string"

text \<open>
  What a call does to the outside: a call of \<open>rollout\<close>, or text written by \<open>print\<close>.
\<close>

datatype event = Rollout | Print string

text \<open>
  The attributes of an \<open>MCTS_Model\<close> object (\<open>self.model\<close> is only handed to the
  constructor of a node, which is \<open>new_node\<close> here), and the events so far.
\<close>

record ('b, 'm) MCTS_Model =
  rolls :: int
  pvs :: int
  node :: "('b, 'm) node option"
  trace :: "event list"

subsection \<open>Python built-ins\<close>

definition newline :: string where
  "newline = [CHR 0x0A]"

definition escape :: string where
  "escape = [CHR 0x1B]"

definition digit_char :: "nat \<Rightarrow> char" where
  "digit_char d = ''0123456789'' ! d"

fun show_nat :: "nat \<Rightarrow> string" where
  "show_nat n = (if n < 10 then [digit_char n] else show_nat (n div 10) @ [digit_char (n mod 10)])"

declare show_nat.simps [simp del]

definition show_int :: "int \<Rightarrow> string" where
  "show_int i = (if i < 0 then CHR ''-'' # show_nat (nat (- i)) else show_nat (nat i))"

text \<open>\<open>sep.join(xs)\<close>\<close>

fun str_join :: "string \<Rightarrow> string list \<Rightarrow> string" where
  "str_join sep [] = []"
| "str_join sep [x] = x"
| "str_join sep (x # y # ys) = x @ sep @ str_join sep (y # ys)"

text \<open>\<open>print(s)\<close> and \<open>print(s, end='')\<close>\<close>

definition emit :: "string \<Rightarrow> ('b, 'm) MCTS_Model \<Rightarrow> ('b, 'm) MCTS_Model" where
  "emit s st = st\<lparr>trace := trace st @ [Print s]\<rparr>"

text \<open>\<open>max(xs)\<close> over integers: ValueError on the empty sequence.\<close>

definition py_max :: "int list \<Rightarrow> error + int" where
  "py_max xs = (case xs of [] \<Rightarrow> Inl ValueError | x # ys \<Rightarrow> Inr (fold max ys x))"

text \<open>
  \<open>max(xs, key=k)\<close>: the running best is replaced only by an item whose key is strictly
  greater, so the first item of maximal key is returned.
\<close>

definition max_by :: "('a \<Rightarrow> int) \<Rightarrow> 'a \<Rightarrow> 'a list \<Rightarrow> 'a" where
  "max_by k x ys = fold (\<lambda>y best. if k best < k y then y else best) ys x"

definition py_max_key :: "('a \<Rightarrow> int) \<Rightarrow> 'a list \<Rightarrow> error + 'a" where
  "py_max_key k xs = (case xs of [] \<Rightarrow> Inl ValueError | x # ys \<Rightarrow> Inr (max_by k x ys))"

subsection \<open>print\_pvs\<close>

text \<open>\<open>node.parent_board.san(node.move)\<close>\<close>

definition san_of :: "('b, 'm) engine \<Rightarrow> ('b, 'm) node \<Rightarrow> error + string" where
  "san_of eng n =
     (case parent_board n of
        None \<Rightarrow> Inl AttributeError
      | Some pb \<Rightarrow> Inr (san eng pb (move n)))"

text \<open>\<open>f' {node.N/root.N:.1%} ({float(-node.Q):.2})'\<close>\<close>

definition annotation :: "('b, 'm) engine \<Rightarrow> ('b, 'm) node \<Rightarrow> ('b, 'm) node \<Rightarrow> error + string" where
  "annotation eng rt n =
     (if N rt = 0 then Inl ZeroDivisionError
      else Inr ('' '' @ fmt_percent eng (of_int (N n) / of_int (N rt))
                @ '' ('' @ fmt_general eng (- Q n) @ '')''))"

lemma size_child: "c \<in> set (children n) \<Longrightarrow> size c < size n"
proof (cases n)
  case (Node b pb m v q p cs)
  assume "c \<in> set (children n)"
  with Node have "c \<in> set cs" by simp
  then have "size c \<le> size_list size cs" by (rule size_list_estimation') simp
  with Node show ?thesis by simp
qed

lemma ranked_child:
  "i < length (children n) \<Longrightarrow> sort_key k (children n) ! i \<in> set (children n)"
  using nth_mem [of i "sort_key k (children n)"] by simp

lemma max_by_mem: "max_by k x ys \<in> set (x # ys)"
  unfolding max_by_def
proof (induction ys arbitrary: x)
  case Nil
  show ?case by simp
next
  case (Cons y ys)
  show ?case using Cons.IH [of y] Cons.IH [of x] by auto
qed

lemma max_by_child: "children n \<noteq> [] \<Longrightarrow> max_by k (hd (children n)) (tl (children n)) \<in> set (children n)"
  using max_by_mem [of k "hd (children n)" "tl (children n)"] by simp

text \<open>
  The \<open>while node.children\<close> loop of \<open>print_pvs\<close> for line \<open>i\<close>, from \<open>nd\<close> on: the list
  \<open>pv\<close> of the entries it appends. The test \<open>node == root\<close> compares objects; in a tree
  no node below the root is the root, and none is equal to it as a value either.
\<close>

function pv_from :: "('b, 'm) engine \<Rightarrow> ('b, 'm) node \<Rightarrow> nat \<Rightarrow> ('b, 'm) node \<Rightarrow> error + string list" where
  "pv_from eng rt i nd =
     (if children nd = [] then Inr []
      else if nd = rt then
        (if i < length (children nd) then
           (case san_of eng (sort_key (\<lambda>n. - N n) (children nd) ! i) of
              Inl e \<Rightarrow> Inl e
            | Inr s \<Rightarrow>
               (case annotation eng rt (sort_key (\<lambda>n. - N n) (children nd) ! i) of
                  Inl e \<Rightarrow> Inl e
                | Inr a \<Rightarrow>
                   (case pv_from eng rt i (sort_key (\<lambda>n. - N n) (children nd) ! i) of
                      Inl e \<Rightarrow> Inl e
                    | Inr rest \<Rightarrow> Inr ((s @ a) # rest))))
         else Inl IndexError)
      else
        (case san_of eng (max_by N (hd (children nd)) (tl (children nd))) of
           Inl e \<Rightarrow> Inl e
         | Inr s \<Rightarrow>
            (case pv_from eng rt i (max_by N (hd (children nd)) (tl (children nd))) of
               Inl e \<Rightarrow> Inl e
             | Inr rest \<Rightarrow> Inr (s # rest))))"
  by pat_completeness auto

termination
  apply (relation "measure (\<lambda>(eng, rt, i, nd). size nd)")
    apply simp
   apply (simp add: size_child ranked_child)
  apply (simp add: size_child max_by_child)
  done

declare pv_from.simps [simp del]

text \<open>\<open>if len(pv) >= 10: pv = pv[:10] + ['...']\<close>\<close>

definition truncate_pv :: "string list \<Rightarrow> string list" where
  "truncate_pv pv = (if 10 \<le> length pv then take 10 pv @ [''...''] else pv)"

text \<open>The body of \<open>for i in range(pvs)\<close>: the text of the line \<open>i\<close>.\<close>

definition pv_line :: "('b, 'm) engine \<Rightarrow> ('b, 'm) node \<Rightarrow> nat \<Rightarrow> error + string" where
  "pv_line eng rt i =
     (case pv_from eng rt i rt of
        Inl e \<Rightarrow> Inl e
      | Inr pv \<Rightarrow>
          Inr (''Pv'' @ show_int (int i + 1) @ '': '' @ str_join '', '' (truncate_pv pv) @ newline))"

fun pv_lines :: "('b, 'm) engine \<Rightarrow> ('b, 'm) node \<Rightarrow> nat list \<Rightarrow> error + string list" where
  "pv_lines eng rt [] = Inr []"
| "pv_lines eng rt (i # js) =
     (case pv_line eng rt i of
        Inl e \<Rightarrow> Inl e
      | Inr l \<Rightarrow> (case pv_lines eng rt js of Inl e \<Rightarrow> Inl e | Inr ls \<Rightarrow> Inr (l # ls)))"

definition print_pvs :: "('b, 'm) engine \<Rightarrow> ('b, 'm) MCTS_Model \<Rightarrow> error + ('b, 'm) MCTS_Model" where
  "print_pvs eng st =
     (case node st of
        None \<Rightarrow> Inl AttributeError
      | Some rt \<Rightarrow>
          (let k = min (pvs st) (int (length (children rt))) in
           case pv_lines eng rt [0 ..< nat k] of
             Inl e \<Rightarrow> Inl e
           | Inr ls \<Rightarrow>
               Inr (st\<lparr>trace := trace st @ map Print ls
                      @ [Print (escape @ ''[1000D''), Print (escape @ ''['' @ show_int k @ ''A'')]\<rparr>)))"

subsection \<open>find\_move\<close>

text \<open>
  Lines 128 to 133: if there is a current node, the first of its children whose board is
  equal to the supplied board becomes the current node.
\<close>

definition reuse_lookup :: "'b \<Rightarrow> ('b, 'm) MCTS_Model \<Rightarrow> ('b, 'm) MCTS_Model" where
  "reuse_lookup b st =
     (case node st of
        None \<Rightarrow> st
      | Some rt \<Rightarrow>
          (case find (\<lambda>n. board n = b) (children rt) of
             None \<Rightarrow> st
           | Some c \<Rightarrow> st\<lparr>node := Some c\<rparr>))"

text \<open>
  Lines 136 to 139: without a current node, or with one of another board, a new node is
  made (and reported when \<open>debug\<close> is set).
\<close>

definition ensure_node :: "('b, 'm) engine \<Rightarrow> 'b \<Rightarrow> bool \<Rightarrow> ('b, 'm) MCTS_Model \<Rightarrow> ('b, 'm) MCTS_Model" where
  "ensure_node eng b debug st =
     (if (case node st of None \<Rightarrow> True | Some rt \<Rightarrow> board rt \<noteq> b) then
        (let st' = st\<lparr>node := Some (new_node eng b)\<rparr> in
         if debug then emit (''Creating new node.'' @ newline) st' else st')
      else st)"

text \<open>Lines 142 to 145: with \<open>pvs\<close> set, one rollout and the line of the priors.\<close>

definition priors_line :: "('b, 'm) engine \<Rightarrow> 'b \<Rightarrow> ('b, 'm) node \<Rightarrow> string" where
  "priors_line eng b rt =
     ''Priors: ''
     @ str_join '', '' (map (\<lambda>n. san eng b (move n) @ '' '' @ fmt_percent eng (P n))
                          (take 7 (sort_key (\<lambda>n. - P n) (children rt))))
     @ newline"

definition print_priors :: "('b, 'm) engine \<Rightarrow> 'b \<Rightarrow> ('b, 'm) MCTS_Model \<Rightarrow> error + ('b, 'm) MCTS_Model" where
  "print_priors eng b st =
     (if pvs st \<noteq> 0 then
        (case node st of
           None \<Rightarrow> Inl AttributeError
         | Some rt \<Rightarrow>
             Inr (st\<lparr>node := Some (rollout eng rt),
                     trace := trace st @ [Rollout, Print (priors_line eng b (rollout eng rt))]\<rparr>))
      else Inr st)"

text \<open>Lines 149 to 151: the body of the loop, at the index \<open>i\<close>.\<close>

definition loop_body :: "('b, 'm) engine \<Rightarrow> int \<Rightarrow> ('b, 'm) MCTS_Model \<Rightarrow> error + ('b, 'm) MCTS_Model" where
  "loop_body eng i st =
     (case node st of
        None \<Rightarrow> Inl AttributeError
      | Some rt \<Rightarrow>
          (let st' = st\<lparr>node := Some (rollout eng rt), trace := trace st @ [Rollout]\<rparr> in
           if pvs st \<noteq> 0 \<and> (i mod 100 = 0 \<or> i = rolls st - 1) then print_pvs eng st'
           else Inr st'))"

text \<open>Line 148: \<open>for i in range(self.rolls)\<close>, over the indices still to come.\<close>

fun iteration_loop :: "('b, 'm) engine \<Rightarrow> nat list \<Rightarrow> ('b, 'm) MCTS_Model \<Rightarrow> error + ('b, 'm) MCTS_Model" where
  "iteration_loop eng [] st = Inr st"
| "iteration_loop eng (i # js) st =
     (case loop_body eng (int i) st of
        Inl e \<Rightarrow> Inl e
      | Inr st' \<Rightarrow> iteration_loop eng js st')"

text \<open>Lines 153 and 154: \<open>print('\n'*self.pvs, end='')\<close>\<close>

definition clean_up :: "('b, 'm) MCTS_Model \<Rightarrow> ('b, 'm) MCTS_Model" where
  "clean_up st =
     (if pvs st \<noteq> 0 then emit (concat (replicate (nat (pvs st)) newline)) st else st)"

text \<open>Lines 142 to 154, on the current node.\<close>

definition budget :: "('b, 'm) engine \<Rightarrow> 'b \<Rightarrow> ('b, 'm) MCTS_Model \<Rightarrow> error + ('b, 'm) MCTS_Model" where
  "budget eng b st =
     (case print_priors eng b st of
        Inl e \<Rightarrow> Inl e
      | Inr st1 \<Rightarrow>
          (case iteration_loop eng [0 ..< nat (rolls st1)] st1 of
             Inl e \<Rightarrow> Inl e
           | Inr st2 \<Rightarrow> Inr (clean_up st2)))"

text \<open>Lines 128 to 154: one search round, up to the check of line 155.\<close>

definition search_round :: "('b, 'm) engine \<Rightarrow> 'b \<Rightarrow> bool \<Rightarrow> ('b, 'm) MCTS_Model \<Rightarrow> error + ('b, 'm) MCTS_Model" where
  "search_round eng b debug st = budget eng b (ensure_node eng b debug (reuse_lookup b st))"

text \<open>
  The condition of line 155, \<open>max(n.N for n in self.node.children)/self.node.N < .2\<close>:
  \<open>max\<close> is evaluated first and raises ValueError without children, the division raises
  ZeroDivisionError at a visit count of 0. The quotient and the literal \<open>.2\<close> are floats
  in the source; the model compares the exact quotient with one fifth.
\<close>

definition low_concentration :: "('b, 'm) MCTS_Model \<Rightarrow> error + bool" where
  "low_concentration st =
     (case node st of
        None \<Rightarrow> Inl AttributeError
      | Some rt \<Rightarrow>
          (case py_max (map N (children rt)) of
             Inl e \<Rightarrow> Inl e
           | Inr m \<Rightarrow>
               if N rt = 0 then Inl ZeroDivisionError
               else Inr ((of_int m :: rat) / of_int (N rt) < 2 / 10)))"

text \<open>
  Lines 160 to 166. With \<open>pick_random\<close>, line 161 reads \<open>self.children\<close>: an
  \<open>MCTS_Model\<close> has the attributes \<open>model\<close>, \<open>rolls\<close>, \<open>pvs\<close> and \<open>node\<close> only, so
  the read raises AttributeError and line 162 (\<open>random.choices\<close>) is never reached.
\<close>

definition pick_child :: "bool \<Rightarrow> ('b, 'm) MCTS_Model \<Rightarrow> error + ('m option \<times> ('b, 'm) MCTS_Model)" where
  "pick_child pick_random st =
     (if pick_random then Inl AttributeError
      else
        (case node st of
           None \<Rightarrow> Inl AttributeError
         | Some rt \<Rightarrow>
             (case py_max_key N (children rt) of
                Inl e \<Rightarrow> Inl e
              | Inr c \<Rightarrow> Inr (move c, st\<lparr>node := Some c\<rparr>))))"

text \<open>The notice of line 156, as \<open>print\<close> writes it.\<close>

definition notice :: string where
  "notice = ''Thinking extra deeply.'' @ newline"

text \<open>
  \<open>find_move\<close>: a search round, then either the notice and the call of \<open>find_move\<close>
  on itself (line 157), or the choice of a child.
\<close>

partial_function (option) find_move ::
  "('b, 'm) engine \<Rightarrow> 'b \<Rightarrow> bool \<Rightarrow> bool \<Rightarrow> ('b, 'm) MCTS_Model
     \<Rightarrow> (error + ('m option \<times> ('b, 'm) MCTS_Model)) option" where
  "find_move eng b debug pick_random st =
     (case search_round eng b debug st of
        Inl e \<Rightarrow> Some (Inl e)
      | Inr st1 \<Rightarrow>
          (case low_concentration st1 of
             Inl e \<Rightarrow> Some (Inl e)
           | Inr low \<Rightarrow>
               if low then
                 find_move eng b debug pick_random (emit notice st1)
               else Some (pick_child pick_random st1)))"

declare find_move.simps [code]

subsection \<open>Observations on a run\<close>

text \<open>The number of calls of \<open>rollout\<close> among the events.\<close>

definition rollout_calls :: "event list \<Rightarrow> nat" where
  "rollout_calls tr = length (filter (\<lambda>e. e = Rollout) tr)"

text \<open>Every node that can be reached from a node, the node first, children in their order.\<close>

fun reachable :: "('b, 'm) node \<Rightarrow> ('b, 'm) node list" where
  "reachable (Node b pb m v q p cs) = Node b pb m v q p cs # concat (map reachable cs)"

subsection \<open>A small engine for the examples\<close>

text \<open>
  The examples run the controller on a game whose board is the number of plies left: the
  board 0 has no legal move, the board 1 has one (to the board 0), and a larger board
  \<open>b\<close> has two (to \<open>b - 1\<close> and to 0). A rollout counts the visit, expands a node on its
  first visit and otherwise goes on into the first child.
\<close>

definition demo_new :: "nat \<Rightarrow> (nat, nat) node" where
  "demo_new b = Node b None None 0 0 0 []"

definition demo_expand :: "nat \<Rightarrow> (nat, nat) node list" where
  "demo_expand b =
     (if b = 0 then []
      else if b = 1 then [Node 0 (Some 1) (Some 0) 0 0 1 []]
      else [Node (b - 1) (Some b) (Some 0) 0 0 (1 / 2) [], Node 0 (Some b) (Some 1) 0 0 (1 / 2) []])"

fun demo_rollout :: "(nat, nat) node \<Rightarrow> (nat, nat) node" where
  "demo_rollout (Node b pb m v q p []) = Node b pb m (v + 1) q p (demo_expand b)"
| "demo_rollout (Node b pb m v q p (c # cs)) = Node b pb m (v + 1) q p (demo_rollout c # cs)"

definition demo_san :: "nat \<Rightarrow> nat option \<Rightarrow> string" where
  "demo_san b m = (case m of None \<Rightarrow> ''--'' | Some k \<Rightarrow> (if k = 0 then ''a'' else ''b''))"

definition demo_engine :: "(nat, nat) engine" where
  "demo_engine =
     \<lparr>new_node = demo_new, rollout = demo_rollout, san = demo_san,
      fmt_percent = (\<lambda>x. ''%''), fmt_general = (\<lambda>x. ''v'')\<rparr>"

text \<open>A controller as \<open>__init__\<close> leaves it, before any output.\<close>

definition init :: "int \<Rightarrow> int \<Rightarrow> (nat, nat) MCTS_Model" where
  "init r k = \<lparr>rolls = r, pvs = k, node = None, trace = []\<rparr>"

text \<open>The tree after \<open>k\<close> rollouts from a new node of the board \<open>b\<close>, and a controller given by its parts.\<close>

definition demo_after :: "nat \<Rightarrow> nat \<Rightarrow> (nat, nat) node" where
  "demo_after b k = (demo_rollout ^^ k) (demo_new b)"

definition demo_state :: "int \<Rightarrow> int \<Rightarrow> (nat, nat) node \<Rightarrow> event list \<Rightarrow> (nat, nat) MCTS_Model" where
  "demo_state r k rt tr = \<lparr>rolls = r, pvs = k, node = Some rt, trace = tr\<rparr>"

section \<open>Properties\<close>

subsection \<open>The built-ins\<close>

lemma max_by_snoc:
  "max_by k x (ys @ [y]) = (if k (max_by k x ys) < k y then y else max_by k x ys)"
  by (simp add: max_by_def)

lemma max_by_first:
  "\<exists>i. i < length (x # ys) \<and> (x # ys) ! i = max_by k x ys
     \<and> (\<forall>z \<in> set (x # ys). k z \<le> k (max_by k x ys))
     \<and> (\<forall>j < i. k ((x # ys) ! j) < k (max_by k x ys))"
proof (induction ys rule: rev_induct)
  case Nil
  show ?case by (simp add: max_by_def)
next
  case (snoc y ys)
  then obtain i where i: "i < length (x # ys)" "(x # ys) ! i = max_by k x ys"
    "\<forall>z \<in> set (x # ys). k z \<le> k (max_by k x ys)"
    "\<forall>j < i. k ((x # ys) ! j) < k (max_by k x ys)"
    by blast
  show ?case
  proof (cases "k (max_by k x ys) < k y")
    case True
    have "\<forall>j < length (x # ys). k ((x # ys @ [y]) ! j) < k y"
    proof (intro allI impI)
      fix j assume j: "j < length (x # ys)"
      then have "(x # ys @ [y]) ! j = (x # ys) ! j"
        using nth_append [of "x # ys" "[y]" j] by simp
      moreover have "(x # ys) ! j \<in> set (x # ys)" using j by (rule nth_mem)
      ultimately show "k ((x # ys @ [y]) ! j) < k y" using i(3) True by fastforce
    qed
    moreover have "(x # ys @ [y]) ! length (x # ys) = y"
      using nth_append_length [of "x # ys" y "[]"] by simp
    moreover have "\<forall>z \<in> set (x # ys @ [y]). k z \<le> k y" using i(3) True by fastforce
    ultimately show ?thesis using True
      by (intro exI [of _ "length (x # ys)"]) (simp add: max_by_snoc)
  next
    case False
    have "(x # ys @ [y]) ! i = (x # ys) ! i"
      using i(1) nth_append [of "x # ys" "[y]" i] by simp
    moreover have "\<forall>j < i. (x # ys @ [y]) ! j = (x # ys) ! j"
      using i(1) nth_append [of "x # ys" "[y]"] by simp
    moreover have "\<forall>z \<in> set (x # ys @ [y]). k z \<le> k (max_by k x ys)" using i(3) False by auto
    ultimately show ?thesis using False i
      by (intro exI [of _ i]) (simp add: max_by_snoc)
  qed
qed

lemma py_max_key_first:
  assumes "py_max_key k xs = Inr c"
  shows "\<exists>i. i < length xs \<and> xs ! i = c \<and> (\<forall>z \<in> set xs. k z \<le> k c) \<and> (\<forall>j < i. k (xs ! j) < k c)"
proof (cases xs)
  case Nil
  with assms show ?thesis by (simp add: py_max_key_def)
next
  case (Cons x ys)
  with assms have "c = max_by k x ys" by (simp add: py_max_key_def)
  with Cons max_by_first [of x ys k] show ?thesis by simp
qed

lemma py_max_Inr:
  "xs \<noteq> [] \<Longrightarrow> py_max xs = Inr (Max (set xs))"
proof (cases xs)
  case Nil
  assume "xs \<noteq> []"
  with Nil show ?thesis by simp
next
  case (Cons x ys)
  have "fold max ys x = Max (set (x # ys))" by (rule Max.set_eq_fold [symmetric])
  with Cons show ?thesis by (simp add: py_max_def)
qed

lemma py_max_Nil: "py_max [] = Inl ValueError"
  by (simp add: py_max_def)

text \<open>What line 120 and 121 do to the list of a line.\<close>

lemma truncate_pv_cases:
  "truncate_pv pv = (if length pv < 10 then pv else take 10 pv @ [''...''])"
  by (simp add: truncate_pv_def)

lemma truncate_pv_moves: "take 10 (truncate_pv pv) = take 10 pv"
  by (simp add: truncate_pv_def)

subsection \<open>The effect of the loop and of a round\<close>

lemma rollout_calls_append: "rollout_calls (xs @ ys) = rollout_calls xs + rollout_calls ys"
  by (simp add: rollout_calls_def)

lemma rollout_calls_prints: "rollout_calls (map Print ls) = 0"
  by (induction ls) (simp_all add: rollout_calls_def)

lemma print_pvs_effect:
  assumes "print_pvs eng st = Inr st'"
  shows "\<exists>ls. st' = st\<lparr>trace := trace st @ map Print ls\<rparr>"
proof -
  from assms obtain rt where rt: "node st = Some rt"
    by (cases "node st") (simp_all add: print_pvs_def)
  let ?k = "min (pvs st) (int (length (children rt)))"
  from assms rt obtain ls where "pv_lines eng rt [0 ..< nat ?k] = Inr ls"
    by (cases "pv_lines eng rt [0 ..< nat ?k]") (simp_all add: print_pvs_def Let_def)
  with assms rt have
    "st' = st\<lparr>trace := trace st @ map Print (ls @ [escape @ ''[1000D'', escape @ ''['' @ show_int ?k @ ''A''])\<rparr>"
    by (simp add: print_pvs_def Let_def)
  then show ?thesis by blast
qed

lemma loop_body_effect:
  assumes "loop_body eng i st = Inr st'"
  shows "\<exists>rt ls. node st = Some rt
     \<and> st' = st\<lparr>node := Some (rollout eng rt), trace := trace st @ Rollout # map Print ls\<rparr>"
proof -
  from assms obtain rt where rt: "node st = Some rt"
    by (cases "node st") (simp_all add: loop_body_def)
  let ?s = "st\<lparr>node := Some (rollout eng rt), trace := trace st @ [Rollout]\<rparr>"
  show ?thesis
  proof (cases "pvs st \<noteq> 0 \<and> (i mod 100 = 0 \<or> i = rolls st - 1)")
    case True
    with assms rt have "print_pvs eng ?s = Inr st'" by (simp add: loop_body_def Let_def)
    then obtain ls where "st' = ?s\<lparr>trace := trace ?s @ map Print ls\<rparr>"
      using print_pvs_effect by blast
    then have "st' = st\<lparr>node := Some (rollout eng rt), trace := trace st @ Rollout # map Print ls\<rparr>"
      by simp
    with rt show ?thesis by blast
  next
    case False
    with assms rt have "st' = ?s" by (auto simp add: loop_body_def Let_def)
    then have "st' = st\<lparr>node := Some (rollout eng rt), trace := trace st @ Rollout # map Print []\<rparr>"
      by simp
    with rt show ?thesis by blast
  qed
qed

lemma iteration_loop_effect:
  "iteration_loop eng js st = Inr st' \<Longrightarrow> node st = Some rt \<Longrightarrow>
     \<exists>tr. st' = st\<lparr>node := Some ((rollout eng ^^ length js) rt), trace := trace st @ tr\<rparr>
        \<and> rollout_calls tr = length js"
proof (induction js arbitrary: st rt)
  case Nil
  then have "st' = st\<lparr>node := Some ((rollout eng ^^ length []) rt), trace := trace st @ []\<rparr>"
    by simp
  then show ?case by (intro exI [of _ "[]"]) (simp add: rollout_calls_def)
next
  case (Cons i js)
  from Cons.prems(1) obtain s1 where s1: "loop_body eng (int i) st = Inr s1"
    and rest: "iteration_loop eng js s1 = Inr st'"
    by (cases "loop_body eng (int i) st") simp_all
  from loop_body_effect [OF s1] Cons.prems(2) obtain ls where
    s1_eq: "s1 = st\<lparr>node := Some (rollout eng rt), trace := trace st @ Rollout # map Print ls\<rparr>"
    by auto
  then have "node s1 = Some (rollout eng rt)" by simp
  from Cons.IH [OF rest this] obtain tr where
    tr: "st' = s1\<lparr>node := Some ((rollout eng ^^ length js) (rollout eng rt)), trace := trace s1 @ tr\<rparr>"
      "rollout_calls tr = length js"
    by blast
  have "st' = st\<lparr>node := Some ((rollout eng ^^ length (i # js)) rt),
                  trace := trace st @ (Rollout # map Print ls @ tr)\<rparr>"
    using tr(1) s1_eq by (simp add: funpow_swap1)
  moreover have "rollout_calls (Rollout # map Print ls @ tr) = length (i # js)"
    using tr(2) rollout_calls_append [of "[Rollout]" "map Print ls @ tr"]
      rollout_calls_append [of "map Print ls" tr] rollout_calls_prints [of ls]
    by (simp add: rollout_calls_def)
  ultimately show ?case by blast
qed

lemma iteration_loop_quiet:
  "pvs st = 0 \<Longrightarrow> node st = Some rt \<Longrightarrow>
     iteration_loop eng js st
       = Inr (st\<lparr>node := Some ((rollout eng ^^ length js) rt),
                 trace := trace st @ replicate (length js) Rollout\<rparr>)"
proof (induction js arbitrary: st rt)
  case Nil
  then show ?case by simp
next
  case (Cons i js)
  let ?s = "st\<lparr>node := Some (rollout eng rt), trace := trace st @ [Rollout]\<rparr>"
  have body: "loop_body eng (int i) st = Inr ?s"
    using Cons.prems by (simp add: loop_body_def)
  have "pvs ?s = 0" "node ?s = Some (rollout eng rt)" using Cons.prems by simp_all
  from Cons.IH [OF this] body show ?case
    by (simp add: funpow_swap1 replicate_app_Cons_same)
qed

lemma budget_effect:
  assumes "budget eng b st = Inr st'" and rt: "node st = Some rt"
  shows "\<exists>tr. st' = st\<lparr>node := Some ((rollout eng ^^ nat (rolls st)) (if pvs st \<noteq> 0 then rollout eng rt else rt)),
                       trace := trace st
                          @ (if pvs st \<noteq> 0 then [Rollout, Print (priors_line eng b (rollout eng rt))] else [])
                          @ tr\<rparr>
            \<and> rollout_calls tr = nat (rolls st)"
proof -
  define s1 where "s1 = (if pvs st \<noteq> 0
      then st\<lparr>node := Some (rollout eng rt),
               trace := trace st @ [Rollout, Print (priors_line eng b (rollout eng rt))]\<rparr>
      else st)"
  have pp: "print_priors eng b st = Inr s1"
    using rt by (simp add: print_priors_def s1_def)
  have s1_node: "node s1 = Some (if pvs st \<noteq> 0 then rollout eng rt else rt)"
    using rt by (simp add: s1_def)
  have s1_rolls: "rolls s1 = rolls st" and s1_pvs: "pvs s1 = pvs st" by (simp_all add: s1_def)
  from assms(1) pp obtain s2 where loop: "iteration_loop eng [0 ..< nat (rolls s1)] s1 = Inr s2"
    and st': "st' = clean_up s2"
    by (cases "iteration_loop eng [0 ..< nat (rolls s1)] s1") (auto simp add: budget_def)
  from iteration_loop_effect [OF loop s1_node] obtain tr where
    s2: "s2 = s1\<lparr>node := Some ((rollout eng ^^ nat (rolls st)) (if pvs st \<noteq> 0 then rollout eng rt else rt)),
                  trace := trace s1 @ tr\<rparr>"
    and tr: "rollout_calls tr = nat (rolls st)"
    using s1_rolls by auto
  define tr' where "tr' = (if pvs st \<noteq> 0 then tr @ [Print (concat (replicate (nat (pvs st)) newline))] else tr)"
  have "rollout_calls tr' = nat (rolls st)"
    using tr by (simp add: tr'_def rollout_calls_def)
  moreover have "st' = st\<lparr>node := Some ((rollout eng ^^ nat (rolls st)) (if pvs st \<noteq> 0 then rollout eng rt else rt)),
                       trace := trace st
                          @ (if pvs st \<noteq> 0 then [Rollout, Print (priors_line eng b (rollout eng rt))] else [])
                          @ tr'\<rparr>"
    unfolding st' s2 by (simp add: clean_up_def emit_def s1_def tr'_def)
  ultimately show ?thesis by blast
qed

lemma budget_quiet:
  assumes "pvs st = 0" and "node st = Some rt"
  shows "budget eng b st
       = Inr (st\<lparr>node := Some ((rollout eng ^^ nat (rolls st)) rt),
                 trace := trace st @ replicate (nat (rolls st)) Rollout\<rparr>)"
proof -
  have "print_priors eng b st = Inr st" using assms by (simp add: print_priors_def)
  moreover have "iteration_loop eng [0 ..< nat (rolls st)] st
       = Inr (st\<lparr>node := Some ((rollout eng ^^ length [0 ..< nat (rolls st)]) rt),
                 trace := trace st @ replicate (length [0 ..< nat (rolls st)]) Rollout\<rparr>)"
    using assms by (rule iteration_loop_quiet)
  ultimately show ?thesis using assms by (simp add: budget_def clean_up_def)
qed

lemma reuse_lookup_frame:
  "rolls (reuse_lookup b st) = rolls st \<and> pvs (reuse_lookup b st) = pvs st
     \<and> trace (reuse_lookup b st) = trace st"
  by (simp add: reuse_lookup_def split: option.splits)

lemma ensure_node_frame:
  "rolls (ensure_node eng b dbg st) = rolls st \<and> pvs (ensure_node eng b dbg st) = pvs st
     \<and> rollout_calls (trace (ensure_node eng b dbg st)) = rollout_calls (trace st)"
  by (simp add: ensure_node_def emit_def Let_def rollout_calls_def)

lemma ensure_node_Some: "\<exists>rt. node (ensure_node eng b dbg st) = Some rt"
  by (cases "node st") (auto simp add: ensure_node_def emit_def Let_def)

lemma search_round_frame:
  assumes "search_round eng b dbg st = Inr st1"
  shows "rolls st1 = rolls st \<and> pvs st1 = pvs st"
proof -
  let ?s0 = "ensure_node eng b dbg (reuse_lookup b st)"
  obtain rt where "node ?s0 = Some rt"
    using ensure_node_Some [of eng b dbg "reuse_lookup b st"] by blast
  with assms budget_effect [of eng b ?s0 st1 rt] obtain tr nd where
    "st1 = ?s0\<lparr>node := nd, trace := tr\<rparr>"
    unfolding search_round_def by blast
  then have "rolls st1 = rolls ?s0 \<and> pvs st1 = pvs ?s0" by simp
  then show ?thesis using ensure_node_frame [of eng b dbg "reuse_lookup b st"] reuse_lookup_frame [of b st]
    by simp
qed

lemma low_concentration_eq:
  assumes "node st = Some rt" "children rt \<noteq> []" "N rt \<noteq> 0"
  shows "low_concentration st
       = Inr ((of_int (Max (N ` set (children rt))) :: rat) / of_int (N rt) < 2 / 10)"
  using assms py_max_Inr [of "map N (children rt)"] by (simp add: low_concentration_def)

lemma low_concentration_empty:
  "node st = Some rt \<Longrightarrow> children rt = [] \<Longrightarrow> low_concentration st = Inl ValueError"
  by (simp add: low_concentration_def py_max_Nil)

lemma lookup_none:
  assumes "node st = Some rt" "\<forall>c \<in> set (children rt). board c \<noteq> b"
  shows "reuse_lookup b st = st"
proof -
  have "find (\<lambda>n. board n = b) (children rt) = None"
    using assms(2) by (simp add: find_None_iff)
  with assms(1) show ?thesis by (simp add: reuse_lookup_def)
qed

lemma ensure_node_keep:
  "node st = Some rt \<Longrightarrow> board rt = b \<Longrightarrow> ensure_node eng b dbg st = st"
  by (simp add: ensure_node_def)

text \<open>With \<open>pick_random\<close>, every call that comes to the choice of a child raises.\<close>

lemma pick_random_raises:
  assumes "search_round eng b dbg st = Inr st1" and "low_concentration st1 = Inr False"
  shows "find_move eng b dbg True st = Some (Inl AttributeError)"
  using assms by (subst find_move.simps) (simp add: pick_child_def)

section \<open>The claims\<close>

subsection \<open>C1: the stochastic choice\<close>

text \<open>
  C1. With \<open>pick_random\<close> set, a call of \<open>find_move\<close> that reaches the choice of a child
  does not sample a child in proportion to the visit counts: line 161 reads
  \<open>self.children\<close>, which an \<open>MCTS_Model\<close> does not have, and the call ends in
  AttributeError. The theorem runs two calls: the first decision of a game under the
  default budget of one rollout, and a root of 100 visits whose three children have 50,
  30 and 20 visits.
\<close>

theorem stochastic_choice_raises:
  "find_move demo_engine 2 False True (init 1 0) = Some (Inl AttributeError)
   \<and> find_move demo_engine 5 False True
        (demo_state 0 0
           (Node 5 None None 100 0 0
              [Node 4 (Some 5) (Some 0) 50 0 0 [],
               Node 3 (Some 5) (Some 1) 30 0 0 [],
               Node 2 (Some 5) (Some 2) 20 0 0 []]) [])
       = Some (Inl AttributeError)"
  by code_simp

subsection \<open>C2: a root without children\<close>

text \<open>
  C2, as the code has it. When the root has no children after the loop, \<open>find_move\<close>
  produces no move: the check of line 155 calls \<open>max\<close> on the empty sequence and the
  call ends in the ValueError of \<open>max\<close>. No error of its own stands for a board
  without legal moves.
\<close>

theorem childless_root_raises:
  assumes "search_round eng b dbg st = Inr st1" and "node st1 = Some rt" and "children rt = []"
  shows "find_move eng b dbg pick st = Some (Inl ValueError)"
  using assms low_concentration_empty [of st1 rt]
  by (subst find_move.simps) simp

text \<open>The board 0 of the examples has no legal move; one rollout leaves its root childless.\<close>

theorem childless_root_raises_witness:
  "search_round demo_engine 0 False (init 1 0) = Inr (demo_state 1 0 (demo_after 0 1) [Rollout])
   \<and> children (demo_after 0 1) = []
   \<and> find_move demo_engine 0 False False (init 1 0) = Some (Inl ValueError)"
proof -
  have r: "search_round demo_engine 0 False (init 1 0) = Inr (demo_state 1 0 (demo_after 0 1) [Rollout])"
    by code_simp
  have n: "node (demo_state 1 0 (demo_after 0 1) [Rollout]) = Some (demo_after 0 1)"
    by (simp add: demo_state_def)
  have c: "children (demo_after 0 1) = []" by code_simp
  show ?thesis using r c childless_root_raises [OF r n c, of False] by simp
qed

text \<open>
  C2 as stated fails: the error of a board without legal moves is the error of \<open>max\<close>, and
  the same error ends a call with a budget of 0 on the board 2, which has legal moves
  (a rollout of its new node gives it children).
\<close>

theorem no_legal_move_signal_counterexample:
  "find_move demo_engine 0 False False (init 1 0) = Some (Inl ValueError)
   \<and> find_move demo_engine 2 False False (init 0 0) = Some (Inl ValueError)
   \<and> children (rollout demo_engine (new_node demo_engine 2)) \<noteq> []"
  by code_simp

subsection \<open>C3: the end of the extension\<close>

text \<open>
  C3, as the code has it. When the largest visit count among the children is at least one
  fifth of the visit count of the root at the check of line 155, \<open>find_move\<close> goes on to
  the choice of a child on that state, with no further round. A root with exactly one
  child ends the extension under the same condition only: when the visit count of the
  child is at least one fifth of that of the root.
\<close>

theorem concentrated_root_selects:
  "(search_round eng b dbg st = Inr st1 \<and> node st1 = Some rt \<and> children rt \<noteq> [] \<and> N rt \<noteq> 0
      \<and> (2 / 10 :: rat) \<le> of_int (Max (N ` set (children rt))) / of_int (N rt)
     \<longrightarrow> find_move eng b dbg pick st = Some (pick_child pick st1))
   \<and> (search_round eng b dbg st = Inr st1 \<and> node st1 = Some rt \<and> children rt = [c]
      \<and> 0 < N rt \<and> N rt \<le> 5 * N c
     \<longrightarrow> find_move eng b dbg pick st = Some (pick_child pick st1))"
proof (intro conjI impI)
  assume h: "search_round eng b dbg st = Inr st1 \<and> node st1 = Some rt \<and> children rt \<noteq> [] \<and> N rt \<noteq> 0
      \<and> (2 / 10 :: rat) \<le> of_int (Max (N ` set (children rt))) / of_int (N rt)"
  then have "low_concentration st1 = Inr False"
    using low_concentration_eq [of st1 rt] by (simp add: not_less)
  with h show "find_move eng b dbg pick st = Some (pick_child pick st1)"
    by (subst find_move.simps) simp
next
  assume h: "search_round eng b dbg st = Inr st1 \<and> node st1 = Some rt \<and> children rt = [c]
      \<and> 0 < N rt \<and> N rt \<le> 5 * N c"
  then have "(of_int (N rt) :: rat) \<le> of_int (5 * N c)" by (simp only: of_int_le_iff)
  then have "(2 / 10 :: rat) \<le> of_int (N c) / of_int (N rt)"
    using h by (simp add: field_simps)
  then have "low_concentration st1 = Inr False"
    using h low_concentration_eq [of st1 rt] by (simp add: not_less)
  with h show "find_move eng b dbg pick st = Some (pick_child pick st1)"
    by (subst find_move.simps) simp
qed

text \<open>
  Two rollouts on the board 2 give a child half of the visits; two rollouts on the board
  1 give the only child one visit of two.
\<close>

theorem concentrated_root_selects_witness:
  "search_round demo_engine 2 False (init 2 0) = Inr (demo_state 2 0 (demo_after 2 2) [Rollout, Rollout])
   \<and> (2 / 10 :: rat) \<le> of_int (Max (N ` set (children (demo_after 2 2)))) / of_int (N (demo_after 2 2))
   \<and> find_move demo_engine 2 False False (init 2 0)
       = Some (pick_child False (demo_state 2 0 (demo_after 2 2) [Rollout, Rollout]))
   \<and> search_round demo_engine 1 False (init 2 0) = Inr (demo_state 2 0 (demo_after 1 2) [Rollout, Rollout])
   \<and> children (demo_after 1 2) = [Node 0 (Some 1) (Some 0) 1 0 1 []]
   \<and> find_move demo_engine 1 False False (init 2 0)
       = Some (pick_child False (demo_state 2 0 (demo_after 1 2) [Rollout, Rollout]))"
proof -
  have r1: "search_round demo_engine 2 False (init 2 0) = Inr (demo_state 2 0 (demo_after 2 2) [Rollout, Rollout])"
    by code_simp
  have n1: "node (demo_state 2 0 (demo_after 2 2) [Rollout, Rollout]) = Some (demo_after 2 2)"
    by (simp add: demo_state_def)
  have c1: "children (demo_after 2 2) \<noteq> []" by code_simp
  have v1: "N (demo_after 2 2) \<noteq> 0" by code_simp
  have q1: "(2 / 10 :: rat) \<le> of_int (Max (N ` set (children (demo_after 2 2)))) / of_int (N (demo_after 2 2))"
    by code_simp
  have r2: "search_round demo_engine 1 False (init 2 0) = Inr (demo_state 2 0 (demo_after 1 2) [Rollout, Rollout])"
    by code_simp
  have n2: "node (demo_state 2 0 (demo_after 1 2) [Rollout, Rollout]) = Some (demo_after 1 2)"
    by (simp add: demo_state_def)
  have c2: "children (demo_after 1 2) = [Node 0 (Some 1) (Some 0) 1 0 1 []]" by code_simp
  have v2: "0 < N (demo_after 1 2)" "N (demo_after 1 2) \<le> 5 * N (Node 0 (Some 1) (Some 0) 1 0 1 [] :: (nat, nat) node)"
    by code_simp+
  show ?thesis
    using concentrated_root_selects [of demo_engine 2 False "init 2 0"
        "demo_state 2 0 (demo_after 2 2) [Rollout, Rollout]" "demo_after 2 2" False]
      concentrated_root_selects [of demo_engine 1 False "init 2 0"
        "demo_state 2 0 (demo_after 1 2) [Rollout, Rollout]" "demo_after 1 2" False
        "Node 0 (Some 1) (Some 0) 1 0 1 []"]
      r1 n1 c1 v1 q1 r2 n2 c2 v2
    by simp
qed

text \<open>
  C3 as stated fails for a root with exactly one child. On the board 1, under a budget
  of one rollout, the first round leaves a root of one visit whose only child has none:
  the check finds the quotient 0, and \<open>find_move\<close> prints the notice and runs a second
  round before it returns.
\<close>

theorem single_child_extension_counterexample:
  "search_round demo_engine 1 False (init 1 0)
     = Inr (demo_state 1 0 (Node 1 None None 1 0 0 [Node 0 (Some 1) (Some 0) 0 0 1 []]) [Rollout])
   \<and> low_concentration
       (demo_state 1 0 (Node 1 None None 1 0 0 [Node 0 (Some 1) (Some 0) 0 0 1 []]) [Rollout])
     = Inr True
   \<and> find_move demo_engine 1 False False (init 1 0)
     = Some (Inr (Some 0,
          demo_state 1 0 (Node 0 (Some 1) (Some 0) 1 0 1 []) [Rollout, Print notice, Rollout]))"
  by code_simp

subsection \<open>C4: the extension round\<close>



subsection \<open>C5: the reuse of the tree\<close>

text \<open>
  C5. When there is a current root and one of its children has the supplied board, lines
  128 to 139 make the first such child the current root and change nothing else:
  whatever the constructor of nodes is, none is made, and nothing is printed. In
  particular, when the current root is the child chosen by the last call and the supplied
  board is its board (the board after the chosen move), that child stays the root and the
  round runs on it; here no child of it has that board, as a move changes the board.
\<close>

theorem matching_child_becomes_root:
  "(node st = Some rt \<and> (\<exists>c \<in> set (children rt). board c = b)
     \<longrightarrow> (\<exists>c i. ensure_node eng b dbg (reuse_lookup b st) = st\<lparr>node := Some c\<rparr>
            \<and> i < length (children rt) \<and> children rt ! i = c \<and> board c = b
            \<and> (\<forall>j < i. board (children rt ! j) \<noteq> b)))
   \<and> (node st = Some c \<and> board c = b \<and> (\<forall>x \<in> set (children c). board x \<noteq> b)
     \<longrightarrow> ensure_node eng b dbg (reuse_lookup b st) = st
        \<and> search_round eng b dbg st = budget eng b st)"
proof (intro conjI impI)
  assume h: "node st = Some rt \<and> (\<exists>c \<in> set (children rt). board c = b)"
  then obtain c where c: "find (\<lambda>n. board n = b) (children rt) = Some c"
    by (cases "find (\<lambda>n. board n = b) (children rt)") (auto simp add: find_None_iff)
  then obtain i where i: "i < length (children rt)" "board (children rt ! i) = b"
    "c = children rt ! i" "\<forall>j < i. board (children rt ! j) \<noteq> b"
    unfolding find_Some_iff by blast
  have "reuse_lookup b st = st\<lparr>node := Some c\<rparr>" using h c by (simp add: reuse_lookup_def)
  moreover have "ensure_node eng b dbg (st\<lparr>node := Some c\<rparr>) = st\<lparr>node := Some c\<rparr>"
    using i by (simp add: ensure_node_def)
  ultimately show "\<exists>c i. ensure_node eng b dbg (reuse_lookup b st) = st\<lparr>node := Some c\<rparr>
            \<and> i < length (children rt) \<and> children rt ! i = c \<and> board c = b
            \<and> (\<forall>j < i. board (children rt ! j) \<noteq> b)"
    using i by (intro exI [of _ c] exI [of _ i]) simp
next
  assume h: "node st = Some c \<and> board c = b \<and> (\<forall>x \<in> set (children c). board x \<noteq> b)"
  then have "reuse_lookup b st = st" using lookup_none [of st c b] by blast
  moreover have "ensure_node eng b dbg st = st" using h ensure_node_keep [of st c b] by blast
  ultimately show "ensure_node eng b dbg (reuse_lookup b st) = st"
    and "search_round eng b dbg st = budget eng b st"
    by (simp_all add: search_round_def)
qed

text \<open>
  After two rollouts on the board 3 the root has a child of the board 2, which has
  children of its own: that child becomes the root on the board 2, and when it is the
  root already it stays the root on the board 2.
\<close>

theorem matching_child_becomes_root_witness:
  "children (demo_after 3 2)
     = [Node 2 (Some 3) (Some 0) 1 0 (1 / 2) (demo_expand 2), Node 0 (Some 3) (Some 1) 0 0 (1 / 2) []]
   \<and> ensure_node demo_engine 2 True (reuse_lookup 2 (demo_state 3 0 (demo_after 3 2) []))
     = demo_state 3 0 (Node 2 (Some 3) (Some 0) 1 0 (1 / 2) (demo_expand 2)) []
   \<and> ensure_node demo_engine 2 True
        (reuse_lookup 2 (demo_state 3 0 (Node 2 (Some 3) (Some 0) 1 0 (1 / 2) (demo_expand 2)) []))
     = demo_state 3 0 (Node 2 (Some 3) (Some 0) 1 0 (1 / 2) (demo_expand 2)) []
   \<and> search_round demo_engine 2 True
        (demo_state 3 0 (Node 2 (Some 3) (Some 0) 1 0 (1 / 2) (demo_expand 2)) [])
     = budget demo_engine 2 (demo_state 3 0 (Node 2 (Some 3) (Some 0) 1 0 (1 / 2) (demo_expand 2)) [])"
proof -
  let ?c = "Node 2 (Some 3) (Some 0) 1 0 (1 / 2) (demo_expand 2) :: (nat, nat) node"
  let ?st = "demo_state 3 0 (demo_after 3 2) []"
  have cs: "children (demo_after 3 2) = [?c, Node 0 (Some 3) (Some 1) 0 0 (1 / 2) []]"
    by code_simp
  have n: "node ?st = Some (demo_after 3 2)" by (simp add: demo_state_def)
  have ex: "\<exists>c \<in> set (children (demo_after 3 2)). board c = 2" by (simp add: cs)
  from matching_child_becomes_root [where st = ?st and rt = "demo_after 3 2" and b = 2
      and eng = demo_engine and dbg = True] n ex
  obtain c i where ci: "ensure_node demo_engine 2 True (reuse_lookup 2 ?st) = ?st\<lparr>node := Some c\<rparr>"
    "i < length (children (demo_after 3 2))" "children (demo_after 3 2) ! i = c" "board c = 2"
    by blast
  have "c = ?c"
  proof (cases i)
    case 0
    with ci(3) cs show ?thesis by simp
  next
    case (Suc k)
    with ci(2) cs have "i = 1" by simp
    with ci(3) cs have "c = Node 0 (Some 3) (Some 1) 0 0 (1 / 2) []" by simp
    with ci(4) show ?thesis by simp
  qed
  with ci(1) have first: "ensure_node demo_engine 2 True (reuse_lookup 2 ?st) = demo_state 3 0 ?c []"
    by (simp add: demo_state_def)
  have n2: "node (demo_state 3 0 ?c []) = Some ?c" by (simp add: demo_state_def)
  have b2: "board ?c = 2" by simp
  have ch: "\<forall>x \<in> set (children ?c). board x \<noteq> 2" by (simp add: demo_expand_def)
  show ?thesis
    using cs first n2 b2 ch
      matching_child_becomes_root [where st = "demo_state 3 0 ?c []" and b = 2 and c = ?c
        and eng = demo_engine and dbg = True]
    by simp
qed

subsection \<open>C6: the length of a line\<close>

text \<open>
  C6. A line of exactly ten moves carries the marker, against the claim: line 120 tests
  \<open>len(pv) >= 10\<close>, so the ten entries are kept whole and \<open>'...'\<close> is put after them. Ten
  rollouts on the board 10 give a tree whose first line has exactly ten moves.
\<close>

theorem ten_moves_carry_marker:
  "pv_from demo_engine (demo_after 10 10) 0 (demo_after 10 10)
     = Inr [''a % (v)'', ''a'', ''a'', ''a'', ''a'', ''a'', ''a'', ''a'', ''a'', ''a'']
   \<and> pv_line demo_engine (demo_after 10 10) 0
     = Inr (''Pv1: a % (v), a, a, a, a, a, a, a, a, a, ...'' @ newline)"
  by code_simp

subsection \<open>C7: the deterministic choice\<close>

text \<open>
  C7. Without \<open>pick_random\<close>, when the round leaves a root with children and visits that
  passes the check of line 155, \<open>find_move\<close> returns the move of the child of greatest
  visit count, the first one of that count in the order of the children, and that child
  is the current root afterwards.
\<close>

theorem deterministic_choice_first_max:
  assumes "search_round eng b dbg st = Inr st1" and "node st1 = Some rt"
    and "children rt \<noteq> []" and "N rt \<noteq> 0"
    and "(2 / 10 :: rat) \<le> of_int (Max (N ` set (children rt))) / of_int (N rt)"
  shows "\<exists>c i. find_move eng b dbg False st = Some (Inr (move c, st1\<lparr>node := Some c\<rparr>))
           \<and> i < length (children rt) \<and> children rt ! i = c
           \<and> (\<forall>x \<in> set (children rt). N x \<le> N c)
           \<and> (\<forall>j < i. N (children rt ! j) < N c)"
proof -
  have low: "low_concentration st1 = Inr False"
    using assms low_concentration_eq [of st1 rt] by (simp add: not_less)
  obtain c where c: "py_max_key N (children rt) = Inr c"
    using assms(3) by (cases "children rt") (simp_all add: py_max_key_def)
  have "find_move eng b dbg False st = Some (Inr (move c, st1\<lparr>node := Some c\<rparr>))"
    using assms(1,2) low c by (subst find_move.simps) (simp add: pick_child_def)
  with py_max_key_first [OF c] show ?thesis by blast
qed

text \<open>
  A root of 10 visits whose children have 3, 5 and 5 visits: the second child is chosen,
  not the third.
\<close>

theorem deterministic_choice_first_max_witness:
  "search_round demo_engine 7 False
      (demo_state 0 0 (Node 7 None None 10 0 0
         [Node 6 (Some 7) (Some 0) 3 0 0 [], Node 5 (Some 7) (Some 1) 5 0 0 [],
          Node 4 (Some 7) (Some 2) 5 0 0 []]) [])
     = Inr (demo_state 0 0 (Node 7 None None 10 0 0
         [Node 6 (Some 7) (Some 0) 3 0 0 [], Node 5 (Some 7) (Some 1) 5 0 0 [],
          Node 4 (Some 7) (Some 2) 5 0 0 []]) [])
   \<and> find_move demo_engine 7 False False
      (demo_state 0 0 (Node 7 None None 10 0 0
         [Node 6 (Some 7) (Some 0) 3 0 0 [], Node 5 (Some 7) (Some 1) 5 0 0 [],
          Node 4 (Some 7) (Some 2) 5 0 0 []]) [])
     = Some (Inr (Some 1, demo_state 0 0 (Node 5 (Some 7) (Some 1) 5 0 0 []) []))"
proof -
  let ?rt = "Node 7 None None 10 0 0
         [Node 6 (Some 7) (Some 0) 3 0 0 [], Node 5 (Some 7) (Some 1) 5 0 0 [],
          Node 4 (Some 7) (Some 2) 5 0 0 []] :: (nat, nat) node"
  let ?st = "demo_state 0 0 ?rt []"
  have r: "search_round demo_engine 7 False ?st = Inr ?st" by code_simp
  have n: "node ?st = Some ?rt" by (simp add: demo_state_def)
  have c: "children ?rt \<noteq> []" by simp
  have v: "N ?rt \<noteq> 0" by simp
  have q: "(2 / 10 :: rat) \<le> of_int (Max (N ` set (children ?rt))) / of_int (N ?rt)" by simp
  from deterministic_choice_first_max [OF r n c v q] obtain c i where
    ci: "find_move demo_engine 7 False False ?st = Some (Inr (move c, ?st\<lparr>node := Some c\<rparr>))"
      "i < length (children ?rt)" "children ?rt ! i = c"
      "\<forall>x \<in> set (children ?rt). N x \<le> N c" "\<forall>j < i. N (children ?rt ! j) < N c"
    by blast
  from ci(2) have "i = 0 \<or> i = 1 \<or> i = 2" by auto
  then have "c = Node 5 (Some 7) (Some 1) 5 0 0 []"
  proof (elim disjE)
    assume "i = 0" with ci(3,4) show ?thesis by auto
  next
    assume "i = 1" with ci(3) show ?thesis by simp
  next
    assume "i = 2" with ci(3,5) show ?thesis by (auto simp add: less_Suc_eq numeral_2_eq_2)
  qed
  with ci(1) r show ?thesis by (simp add: demo_state_def)
qed

subsection \<open>C8: the rollouts of a round\<close>

text \<open>
  C8. With \<open>pvs\<close> set, a round that comes to its end has made one rollout on the root
  and printed the line of the priors before the loop, and \<open>rolls\<close> rollouts in the loop:
  \<open>rolls + 1\<close> calls of the engine. With \<open>pvs = 0\<close> a round always comes to its end and
  makes exactly \<open>rolls\<close> calls. An extension is a call of \<open>find_move\<close> on itself with
  the same \<open>rolls\<close> and \<open>pvs\<close>, so each of its rounds counts the same. (A budget below 0
  counts as 0.)
\<close>

theorem rollouts_per_round:
  "(pvs st \<noteq> 0 \<and> search_round eng b dbg st = Inr st1
     \<longrightarrow> (\<exists>rt tr. node (ensure_node eng b dbg (reuse_lookup b st)) = Some rt
            \<and> node st1 = Some ((rollout eng ^^ (nat (rolls st) + 1)) rt)
            \<and> trace st1 = trace (ensure_node eng b dbg (reuse_lookup b st))
                 @ Rollout # Print (priors_line eng b (rollout eng rt)) # tr
            \<and> rollout_calls tr = nat (rolls st)
            \<and> rollout_calls (trace st1) = rollout_calls (trace st) + (nat (rolls st) + 1)))
   \<and> (pvs st = 0
     \<longrightarrow> (\<exists>rt st1. node (ensure_node eng b dbg (reuse_lookup b st)) = Some rt
            \<and> search_round eng b dbg st = Inr st1
            \<and> node st1 = Some ((rollout eng ^^ nat (rolls st)) rt)
            \<and> trace st1 = trace (ensure_node eng b dbg (reuse_lookup b st))
                 @ replicate (nat (rolls st)) Rollout
            \<and> rollout_calls (trace st1) = rollout_calls (trace st) + nat (rolls st)))
   \<and> (search_round eng b dbg st = Inr st1 \<and> low_concentration st1 = Inr True
     \<longrightarrow> find_move eng b dbg pick st = find_move eng b dbg pick (emit notice st1)
        \<and> rolls (emit notice st1) = rolls st \<and> pvs (emit notice st1) = pvs st)"
proof (intro conjI impI)
  let ?s0 = "ensure_node eng b dbg (reuse_lookup b st)"
  obtain rt where rt: "node ?s0 = Some rt"
    using ensure_node_Some [of eng b dbg "reuse_lookup b st"] by blast
  have fr: "rolls ?s0 = rolls st" "pvs ?s0 = pvs st"
    "rollout_calls (trace ?s0) = rollout_calls (trace st)"
    using ensure_node_frame [of eng b dbg "reuse_lookup b st"] reuse_lookup_frame [of b st]
    by simp_all
  {
    assume h: "pvs st \<noteq> 0 \<and> search_round eng b dbg st = Inr st1"
    then have "budget eng b ?s0 = Inr st1" by (simp add: search_round_def)
    from budget_effect [OF this rt] h fr obtain tr where
      st1: "st1 = ?s0\<lparr>node := Some ((rollout eng ^^ nat (rolls st)) (rollout eng rt)),
                       trace := trace ?s0 @ [Rollout, Print (priors_line eng b (rollout eng rt))] @ tr\<rparr>"
      and tr: "rollout_calls tr = nat (rolls st)"
      by auto
    have "rollout_calls (trace st1) = rollout_calls (trace st) + (nat (rolls st) + 1)"
      using st1 tr fr(3) by (simp add: rollout_calls_def)
    with st1 tr rt
    show "\<exists>rt tr. node ?s0 = Some rt
            \<and> node st1 = Some ((rollout eng ^^ (nat (rolls st) + 1)) rt)
            \<and> trace st1 = trace ?s0 @ Rollout # Print (priors_line eng b (rollout eng rt)) # tr
            \<and> rollout_calls tr = nat (rolls st)
            \<and> rollout_calls (trace st1) = rollout_calls (trace st) + (nat (rolls st) + 1)"
      by (intro exI [of _ rt] exI [of _ tr]) (simp add: funpow_swap1)
  }
  {
    assume h: "pvs st = 0"
    let ?s1 = "?s0\<lparr>node := Some ((rollout eng ^^ nat (rolls ?s0)) rt),
                     trace := trace ?s0 @ replicate (nat (rolls ?s0)) Rollout\<rparr>"
    have "budget eng b ?s0 = Inr ?s1" using h fr(2) rt by (intro budget_quiet) simp_all
    then have "search_round eng b dbg st = Inr ?s1" by (simp add: search_round_def)
    moreover have "rollout_calls (trace ?s1) = rollout_calls (trace st) + nat (rolls st)"
      using fr by (simp add: rollout_calls_def)
    ultimately
    show "\<exists>rt st1. node ?s0 = Some rt
            \<and> search_round eng b dbg st = Inr st1
            \<and> node st1 = Some ((rollout eng ^^ nat (rolls st)) rt)
            \<and> trace st1 = trace ?s0 @ replicate (nat (rolls st)) Rollout
            \<and> rollout_calls (trace st1) = rollout_calls (trace st) + nat (rolls st)"
      using rt fr by (intro exI [of _ rt] exI [of _ ?s1]) simp
  }
  {
    assume h: "search_round eng b dbg st = Inr st1 \<and> low_concentration st1 = Inr True"
    then show "find_move eng b dbg pick st = find_move eng b dbg pick (emit notice st1)"
      by (subst find_move.simps) simp
    show "rolls (emit notice st1) = rolls st" "pvs (emit notice st1) = pvs st"
      using h search_round_frame [of eng b dbg st st1] by (simp_all add: emit_def)
  }
qed

text \<open>
  On the board 2 with a budget of one rollout: two calls of the engine in a round with
  one line of diagnostics, one call in a round without; the round without leaves a root
  of low concentration, and the call goes on with the same budget.
\<close>

theorem rollouts_per_round_witness:
  "pvs (init 1 1) \<noteq> 0
   \<and> search_round demo_engine 2 False (init 1 1)
     = Inr (demo_state 1 1 (demo_after 2 2)
         [Rollout, Print (priors_line demo_engine 2 (demo_after 2 1)), Rollout,
          Print (''Pv1: a % (v), a'' @ newline), Print (escape @ ''[1000D''),
          Print (escape @ ''[1A''), Print newline])
   \<and> rollout_calls
        [Rollout, Print (priors_line demo_engine 2 (demo_after 2 1)), Rollout,
         Print (''Pv1: a % (v), a'' @ newline), Print (escape @ ''[1000D''),
         Print (escape @ ''[1A''), Print newline] = 2
   \<and> search_round demo_engine 2 False (init 1 0) = Inr (demo_state 1 0 (demo_after 2 1) [Rollout])
   \<and> low_concentration (demo_state 1 0 (demo_after 2 1) [Rollout]) = Inr True
   \<and> find_move demo_engine 2 False False (init 1 0)
     = find_move demo_engine 2 False False (emit notice (demo_state 1 0 (demo_after 2 1) [Rollout]))
   \<and> rolls (emit notice (demo_state 1 0 (demo_after 2 1) [Rollout])) = 1
   \<and> pvs (emit notice (demo_state 1 0 (demo_after 2 1) [Rollout])) = 0"
proof -
  let ?tr = "[Rollout, Print (priors_line demo_engine 2 (demo_after 2 1)), Rollout,
          Print (''Pv1: a % (v), a'' @ newline), Print (escape @ ''[1000D''),
          Print (escape @ ''[1A''), Print newline]"
  let ?s1 = "demo_state 1 1 (demo_after 2 2) ?tr"
  let ?q1 = "demo_state 1 0 (demo_after 2 1) [Rollout]"
  have p: "pvs (init 1 1) \<noteq> 0" by (simp add: init_def)
  have r: "search_round demo_engine 2 False (init 1 1) = Inr ?s1" by code_simp
  have t0: "trace (init 1 1) = []" "rolls (init 1 1) = 1" by (simp_all add: init_def)
  have t1: "trace ?s1 = ?tr" by (simp add: demo_state_def)
  have q: "search_round demo_engine 2 False (init 1 0) = Inr ?q1" by code_simp
  have l: "low_concentration ?q1 = Inr True" by code_simp
  have i: "rolls (init 1 0) = 1" "pvs (init 1 0) = 0" by (simp_all add: init_def)
  from rollouts_per_round [where st = "init 1 1" and eng = demo_engine and b = 2 and dbg = False
      and ?st1.0 = ?s1] p r
  have "rollout_calls (trace ?s1) = rollout_calls (trace (init 1 1 :: (nat, nat) MCTS_Model)) + (nat (rolls (init 1 1)) + 1)"
    by blast
  then have c: "rollout_calls ?tr = 2"
    unfolding t1 t0 by (simp add: rollout_calls_def)
  from rollouts_per_round [where st = "init 1 0" and eng = demo_engine and b = 2 and dbg = False
      and ?st1.0 = ?q1 and pick = False] q l i
  have e: "find_move demo_engine 2 False False (init 1 0)
       = find_move demo_engine 2 False False (emit notice ?q1)
     \<and> rolls (emit notice ?q1) = 1 \<and> pvs (emit notice ?q1) = 0"
    by simp
  show ?thesis using p r c q l e by simp
qed

subsection \<open>C9: a budget of zero\<close>

text \<open>
  C9. With \<open>rolls = 0\<close> and \<open>pvs = 0\<close>, on a controller without a root and an engine
  whose new nodes have no children, no rollout is made and the call ends at the check of
  line 155 in the ValueError of \<open>max\<close> on the empty sequence. The check has no guard:
  without children it ends in that error, and with children and a visit count of 0 at
  the root it ends in ZeroDivisionError.
\<close>

theorem zero_budget_raises:
  "(rolls st \<le> 0 \<and> pvs st = 0 \<and> node st = None \<and> children (new_node eng b) = []
      \<longrightarrow> find_move eng b dbg pick st = Some (Inl ValueError))
   \<and> (node st = Some rt \<and> children rt = [] \<longrightarrow> low_concentration st = Inl ValueError)
   \<and> (node st = Some rt \<and> children rt \<noteq> [] \<and> N rt = 0
      \<longrightarrow> low_concentration st = Inl ZeroDivisionError)"
proof (intro conjI impI)
  assume h: "rolls st \<le> 0 \<and> pvs st = 0 \<and> node st = None \<and> children (new_node eng b) = []"
  let ?s0 = "ensure_node eng b dbg (reuse_lookup b st)"
  have look: "reuse_lookup b st = st" using h by (simp add: reuse_lookup_def)
  have s0: "node ?s0 = Some (new_node eng b)" "pvs ?s0 = 0" "rolls ?s0 = rolls st"
    using h look by (simp_all add: ensure_node_def emit_def Let_def)
  have "search_round eng b dbg st
      = Inr (?s0\<lparr>node := Some ((rollout eng ^^ nat (rolls ?s0)) (new_node eng b)),
                 trace := trace ?s0 @ replicate (nat (rolls ?s0)) Rollout\<rparr>)"
    unfolding search_round_def using s0(2) s0(1) by (rule budget_quiet)
  then have round: "search_round eng b dbg st = Inr ?s0"
    using h s0 by simp
  have "low_concentration ?s0 = Inl ValueError"
    using low_concentration_empty [of ?s0 "new_node eng b"] s0(1) h by blast
  with round show "find_move eng b dbg pick st = Some (Inl ValueError)"
    by (subst find_move.simps) simp
next
  assume "node st = Some rt \<and> children rt = []"
  then show "low_concentration st = Inl ValueError"
    by (simp add: low_concentration_empty)
next
  assume h: "node st = Some rt \<and> children rt \<noteq> [] \<and> N rt = 0"
  then obtain x ys where "children rt = x # ys" by (cases "children rt") auto
  with h show "low_concentration st = Inl ZeroDivisionError"
    by (simp add: low_concentration_def py_max_def)
qed

text \<open>
  The board 2 under a budget of 0; a new node as the root; and a root without visits
  that has a child.
\<close>

theorem zero_budget_raises_witness:
  "rolls (init 0 0) \<le> 0 \<and> pvs (init 0 0) = 0 \<and> node (init 0 0) = None
   \<and> children (new_node demo_engine 2) = []
   \<and> find_move demo_engine 2 True False (init 0 0) = Some (Inl ValueError)
   \<and> low_concentration (demo_state 0 0 (demo_new 2) []) = Inl ValueError
   \<and> low_concentration (demo_state 0 0 (Node 2 None None 0 0 0 [demo_new 1]) [])
       = Inl ZeroDivisionError"
proof -
  have i: "rolls (init 0 0) \<le> 0" "pvs (init 0 0) = 0" "node (init 0 0 :: (nat, nat) MCTS_Model) = None"
    by (simp_all add: init_def)
  have c: "children (new_node demo_engine 2) = []" by (simp add: demo_engine_def demo_new_def)
  have a: "node (demo_state 0 0 (demo_new 2) []) = Some (demo_new 2)" "children (demo_new 2) = []"
    by (simp_all add: demo_state_def demo_new_def)
  have z: "node (demo_state 0 0 (Node 2 None None 0 0 0 [demo_new 1]) [])
       = Some (Node 2 None None 0 0 0 [demo_new 1])"
    "children (Node 2 None None 0 0 0 [demo_new 1] :: (nat, nat) node) \<noteq> []"
    "N (Node 2 None None 0 0 0 [demo_new 1] :: (nat, nat) node) = 0"
    by (simp_all add: demo_state_def)
  show ?thesis
    using i c
      zero_budget_raises [where st = "init 0 0" and eng = demo_engine and b = 2 and dbg = True
        and pick = False]
      zero_budget_raises [where st = "demo_state 0 0 (demo_new 2) []" and rt = "demo_new 2"] a
      zero_budget_raises [where st = "demo_state 0 0 (Node 2 None None 0 0 0 [demo_new 1]) []"
        and rt = "Node 2 None None 0 0 0 [demo_new 1]"] z
    by simp
qed

subsection \<open>C10: print\_pvs reads only\<close>

text \<open>
  C10. A call of \<open>print_pvs\<close> that returns leaves the tree as it was: the current root is
  the same value, so every node that can be reached from it has the visit count, the
  value, the move and the list of children it had. The budget and the number of lines
  are unchanged as well, and the engine is not called: only printed text is added. (A
  call that raises changes nothing either; the model has no state after an error.)
\<close>

theorem print_pvs_reads_only:
  assumes "print_pvs eng st = Inr st'"
  shows "node st' = node st
     \<and> map_option reachable (node st') = map_option reachable (node st)
     \<and> rolls st' = rolls st \<and> pvs st' = pvs st
     \<and> rollout_calls (trace st') = rollout_calls (trace st)
     \<and> (\<exists>ls. trace st' = trace st @ map Print ls)"
proof -
  from print_pvs_effect [OF assms] obtain ls where ls: "st' = st\<lparr>trace := trace st @ map Print ls\<rparr>"
    by blast
  then have "trace st' = trace st @ map Print ls" by simp
  then have "\<exists>ls. trace st' = trace st @ map Print ls" by blast
  with ls show ?thesis
    using rollout_calls_append [of "trace st" "map Print ls"] rollout_calls_prints [of ls] by simp
qed

text \<open>The two lines of the tree after three rollouts on the board 3.\<close>

theorem print_pvs_reads_only_witness:
  "print_pvs demo_engine (demo_state 3 2 (demo_after 3 3) [Rollout])
     = Inr (demo_state 3 2 (demo_after 3 3)
         [Rollout, Print (''Pv1: a % (v), a, a'' @ newline), Print (''Pv2: b % (v)'' @ newline),
          Print (escape @ ''[1000D''), Print (escape @ ''[2A'')])
   \<and> node (demo_state 3 2 (demo_after 3 3)
         [Rollout, Print (''Pv1: a % (v), a, a'' @ newline), Print (''Pv2: b % (v)'' @ newline),
          Print (escape @ ''[1000D''), Print (escape @ ''[2A'')])
     = node (demo_state 3 2 (demo_after 3 3) [Rollout])
   \<and> rollout_calls (trace (demo_state 3 2 (demo_after 3 3)
         [Rollout, Print (''Pv1: a % (v), a, a'' @ newline), Print (''Pv2: b % (v)'' @ newline),
          Print (escape @ ''[1000D''), Print (escape @ ''[2A'')]))
     = rollout_calls (trace (demo_state 3 2 (demo_after 3 3) [Rollout]))"
proof -
  have p: "print_pvs demo_engine (demo_state 3 2 (demo_after 3 3) [Rollout])
     = Inr (demo_state 3 2 (demo_after 3 3)
         [Rollout, Print (''Pv1: a % (v), a, a'' @ newline), Print (''Pv2: b % (v)'' @ newline),
          Print (escape @ ''[1000D''), Print (escape @ ''[2A'')])"
    by code_simp
  show ?thesis using p print_pvs_reads_only [OF p] by simp
qed

end
